theory Spec2Isabelle
  imports Main
begin

section \<open>createAsyncMiddleware: data\<close>

text \<open>
  Values of the host language that can be thrown, stored in a response or passed to a
  completion function. \<open>truthy\<close> is the language's boolean coercion.
\<close>

datatype jsval = JUndefined | JNull | JBool bool | JNum int | JStr string | JError string

fun truthy :: "jsval \<Rightarrow> bool" where
  "truthy JUndefined = False"
| "truthy JNull = False"
| "truthy (JBool b) = b"
| "truthy (JNum n) = (n \<noteq> 0)"
| "truthy (JStr s) = (s \<noteq> [])"
| "truthy (JError m) = True"

record request =
  req_id :: jsval
  req_method :: string
  req_params :: jsval

record response =
  res_id :: jsval
  res_result :: "jsval option"
  res_error :: "jsval option"

text \<open>
  A function value handed over by the engine (the argument of the return handler, type
  \<open>ReturnHandlerCallback\<close>): an identity, and the value it throws when it is invoked,
  if it throws.
\<close>

datatype callback = Callback nat "jsval option"

fun cb_throws :: "callback \<Rightarrow> jsval option" where
  "cb_throws (Callback i t) = t"

text \<open>
  The engine is not part of the source file: its \<open>next\<close> and \<open>end\<close> are arguments of
  the produced middleware, and the model takes their behaviour as a parameter. What
  \<open>next\<close> does with the return handler it is given: it invokes the handler before
  \<open>next\<close> returns (\<open>Sync\<close>), at the \<open>k+1\<close>-th later scheduling point (\<open>Defer k\<close>),
  never (\<open>NoCallback\<close>), or \<open>next\<close> itself throws. \<open>next_script\<close> lists the behaviour
  of the successive calls of \<open>next\<close> in one call of the middleware, \<open>next_otherwise\<close> is
  the behaviour of the calls after those, and \<open>end_throws\<close> is what \<open>end\<close> throws when it
  is invoked, if it throws.
\<close>

datatype next_behaviour =
    Sync callback
  | Defer nat callback
  | NoCallback
  | NextThrows jsval

record engine =
  next_script :: "next_behaviour list"
  next_otherwise :: next_behaviour
  end_throws :: "jsval option"

definition nth_behaviour :: "engine \<Rightarrow> nat \<Rightarrow> next_behaviour" where
  "nth_behaviour eng i =
     (if i < length (next_script eng) then next_script eng ! i else next_otherwise eng)"

text \<open>What an observer of one call sees, in order.\<close>

datatype event =
    EvNext
  | EvSupplied callback
  | EvEnd jsval response
  | EvCallback callback jsval response

text \<open>
  The variables of one call of the produced middleware (lines 53 to 59), the request and
  the response it was given, the return handlers the engine still has to invoke, the
  number of calls of \<open>next\<close> so far, and the events so far.
\<close>

record call_state =
  st_req :: request
  st_res :: response
  nextPromiseResolved :: bool
  returnHandlerCallback :: "callback option"
  nextWasCalled :: bool
  queued :: "(nat \<times> callback) list"
  nextCalls :: nat
  trace :: "event list"

definition init :: "request \<Rightarrow> response \<Rightarrow> call_state" where
  "init rq rs =
     \<lparr> st_req = rq, st_res = rs, nextPromiseResolved = False,
       returnHandlerCallback = None, nextWasCalled = False,
       queued = [], nextCalls = 0, trace = [] \<rparr>"

section \<open>Scheduling\<close>

text \<open>
  The produced middleware, \<open>asyncNext\<close> and the handler are async functions on one
  thread: code runs until it gives up control at an \<open>await\<close>, and only there (or inside
  \<open>next\<close>, before it returns) can the engine run a return handler. The model counts these
  scheduling points, one for each turn of the job queue: the code after an \<open>await\<close> of
  a settled promise runs one point later, and the code after an \<open>await\<close> of a pending
  promise runs one point after the promise is settled. At a scheduling point the return
  handlers that are due run first.
\<close>

text \<open>
  Lines 68 to 72, the return handler passed to \<open>next\<close>, run by the engine with the
  callback \<open>c\<close>: it stores the callback and resolves \<open>nextPromise\<close>.
\<close>

definition deliver :: "callback \<Rightarrow> call_state \<Rightarrow> call_state" where
  "deliver c s =
     s\<lparr> returnHandlerCallback := Some c, nextPromiseResolved := True,
        trace := trace s @ [EvSupplied c] \<rparr>"

text \<open>
  One scheduling point (an \<open>await\<close> gives up control): the engine runs the return
  handlers that are due, in the order they were passed, and the others come one step
  closer.
\<close>

definition due :: "(nat \<times> callback) list \<Rightarrow> callback list" where
  "due q = map snd (filter (\<lambda>d. fst d = 0) q)"

definition later :: "(nat \<times> callback) list \<Rightarrow> (nat \<times> callback) list" where
  "later q = map (\<lambda>d. (fst d - 1, snd d)) (filter (\<lambda>d. fst d \<noteq> 0) q)"

definition tick :: "call_state \<Rightarrow> call_state" where
  "tick s = foldl (\<lambda>a c. deliver c a) (s\<lparr> queued := later (queued s) \<rparr>) (due (queued s))"

datatype wait_result = Resumed call_state | Forever call_state

text \<open>
  Scheduling points pass until \<open>nextPromise\<close> is resolved; when it is not and no return
  handler is left to be invoked, it never is.
\<close>

function settle :: "call_state \<Rightarrow> wait_result" where
  "settle s =
     (if nextPromiseResolved s then Resumed s
      else if queued s = [] then Forever s
      else settle (tick s))"
  by pat_completeness auto
termination
proof (relation "measure (\<lambda>s. sum_list (map (\<lambda>d. Suc (fst d)) (queued s)))")
  show "wf (measure (\<lambda>s. sum_list (map (\<lambda>d. Suc (fst d)) (queued s))))" by simp
next
  fix s :: call_state
  assume "\<not> nextPromiseResolved s" and q: "queued s \<noteq> []"
  have "queued (foldl (\<lambda>a c. deliver c a) t cs) = queued t" for t cs
    by (induction cs arbitrary: t) (simp_all add: deliver_def)
  then have t: "queued (tick s) = later (queued s)" by (simp add: tick_def)
  have "sum_list (map (\<lambda>d. Suc (fst d)) (later (d # ds))) < sum_list (map (\<lambda>d. Suc (fst d)) (d # ds))"
    for d :: "nat \<times> callback" and ds
  proof (induction ds arbitrary: d)
    case Nil
    then show ?case by (simp add: later_def)
  next
    case (Cons e ds)
    from Cons [of e] show ?case by (simp add: later_def)
  qed
  with q have "sum_list (map (\<lambda>d. Suc (fst d)) (later (queued s))) <
      sum_list (map (\<lambda>d. Suc (fst d)) (queued s))"
    by (cases "queued s") simp_all
  with t show "(tick s, s) \<in> measure (\<lambda>s. sum_list (map (\<lambda>d. Suc (fst d)) (queued s)))"
    by simp
qed

declare settle.simps [simp del]

text \<open>
  \<open>await nextPromise\<close> (lines 73 and 80): the waiter resumes one scheduling point after
  the promise is resolved (one point after the \<open>await\<close> when it is resolved already), and
  never when the promise never is.
\<close>

definition await_nextPromise :: "call_state \<Rightarrow> wait_result" where
  "await_nextPromise s =
     (case settle s of Resumed s1 \<Rightarrow> Resumed (tick s1) | Forever s1 \<Rightarrow> Forever s1)"

section \<open>The continuation function\<close>

text \<open>
  Lines 63 to 72 of \<open>asyncNext\<close>, the part that runs before its \<open>await\<close>: the flag is
  set, then the engine's \<open>next\<close> is called with the return handler. \<open>Inl\<close> when \<open>next\<close>
  throws.
\<close>

definition asyncNext_call :: "engine \<Rightarrow> call_state \<Rightarrow> (jsval \<times> call_state) + call_state" where
  "asyncNext_call eng s =
     (let s1 = s\<lparr> nextWasCalled := True \<rparr>;
          s2 = s1\<lparr> nextCalls := Suc (nextCalls s1), trace := trace s1 @ [EvNext] \<rparr>
      in case nth_behaviour eng (nextCalls s) of
           Sync c \<Rightarrow> Inr (deliver c s2)
         | Defer k c \<Rightarrow> Inr (s2\<lparr> queued := queued s2 @ [(k, c)] \<rparr>)
         | NoCallback \<Rightarrow> Inr s2
         | NextThrows e \<Rightarrow> Inl (e, s2))"

text \<open>
  The promise \<open>asyncNext\<close> returns, as seen by a caller that awaits it: rejected with what
  \<open>next\<close> threw, resolved after \<open>nextPromise\<close> is, or pending for ever. The caller goes
  on one scheduling point after that promise is settled: it is rejected when \<open>next\<close>
  throws, and resolved when the \<open>await\<close> of line 73 is over.
\<close>

datatype next_result = NextResolved call_state | NextRejected jsval call_state | NextPending call_state

definition asyncNext :: "engine \<Rightarrow> call_state \<Rightarrow> next_result" where
  "asyncNext eng s =
     (case asyncNext_call eng s of
        Inl (e, s1) \<Rightarrow> NextRejected e (tick s1)
      | Inr s1 \<Rightarrow>
          (case await_nextPromise s1 of
             Resumed s2 \<Rightarrow> NextResolved (tick s2)
           | Forever s2 \<Rightarrow> NextPending s2))"

section \<open>The wrapped handler\<close>

text \<open>
  The async middleware is a parameter of \<open>createAsyncMiddleware\<close>. One execution of it is
  the sequence of what it does with its three arguments: it writes the response or the
  request, gives up control on an \<open>await\<close> of its own (\<open>Yield\<close>), calls \<open>next()\<close> and
  goes on without awaiting the promise (\<open>CallNext\<close>), awaits \<open>next()\<close> (\<open>AwaitNext\<close>),
  or throws. At the end of the sequence it returns.
\<close>

datatype action =
    SetResult jsval
  | SetParams jsval
  | Yield
  | CallNext
  | AwaitNext
  | Throw jsval

text \<open>
  The handler's promise is fulfilled (\<open>Returned\<close>), rejected with what the handler threw
  (\<open>Threw\<close>), or never settled (\<open>Hung\<close>: the handler awaits a \<open>next()\<close> whose promise
  stays pending). The promise of a \<open>next()\<close> that is not awaited is dropped, also when it
  is rejected; awaiting a rejected one throws, one scheduling point later.
\<close>

datatype handler_result = Returned call_state | Threw jsval call_state | Hung call_state

fun run_handler :: "engine \<Rightarrow> action list \<Rightarrow> call_state \<Rightarrow> handler_result" where
  "run_handler eng [] s = Returned s"
| "run_handler eng (SetResult v # h) s =
     run_handler eng h (s\<lparr> st_res := (st_res s)\<lparr> res_result := Some v \<rparr> \<rparr>)"
| "run_handler eng (SetParams v # h) s =
     run_handler eng h (s\<lparr> st_req := (st_req s)\<lparr> req_params := v \<rparr> \<rparr>)"
| "run_handler eng (Yield # h) s = run_handler eng h (tick s)"
| "run_handler eng (CallNext # h) s =
     (case asyncNext_call eng s of
        Inl (e, s1) \<Rightarrow> run_handler eng h s1
      | Inr s1 \<Rightarrow> run_handler eng h s1)"
| "run_handler eng (AwaitNext # h) s =
     (case asyncNext eng s of
        NextResolved s1 \<Rightarrow> run_handler eng h s1
      | NextRejected e s1 \<Rightarrow> Threw e s1
      | NextPending s1 \<Rightarrow> Hung s1)"
| "run_handler eng (Throw e # h) s = Threw e s"

section \<open>The produced middleware\<close>

text \<open>
  The promise the produced middleware returns: resolved, rejected, or pending for ever
  (\<open>Stalled\<close>).
\<close>

datatype outcome = Resolved | Rejected jsval | Stalled

text \<open>The engine's \<open>end\<close> and a captured callback, invoked with \<open>e\<close>: \<open>Inl\<close> when it throws.\<close>

definition call_end :: "engine \<Rightarrow> jsval \<Rightarrow> call_state \<Rightarrow> (jsval \<times> call_state) + call_state" where
  "call_end eng e s =
     (let s1 = s\<lparr> trace := trace s @ [EvEnd e (st_res s)] \<rparr>
      in case end_throws eng of None \<Rightarrow> Inr s1 | Some x \<Rightarrow> Inl (x, s1))"

definition call_callback :: "callback \<Rightarrow> jsval \<Rightarrow> call_state \<Rightarrow> (jsval \<times> call_state) + call_state" where
  "call_callback c e s =
     (let s1 = s\<lparr> trace := trace s @ [EvCallback c e (st_res s)] \<rparr>
      in case cb_throws c of None \<Rightarrow> Inr s1 | Some x \<Rightarrow> Inl (x, s1))"

text \<open>Lines 85 to 91: the catch block. What it throws rejects the promise of the call.\<close>

definition catch_block :: "engine \<Rightarrow> jsval \<Rightarrow> call_state \<Rightarrow> outcome \<times> call_state" where
  "catch_block eng e s =
     (case returnHandlerCallback s of
        Some c \<Rightarrow>
          (case call_callback c e s of Inl (x, s1) \<Rightarrow> (Rejected x, s1) | Inr s1 \<Rightarrow> (Resolved, s1))
      | None \<Rightarrow>
          (case call_end eng e s of Inl (x, s1) \<Rightarrow> (Rejected x, s1) | Inr s1 \<Rightarrow> (Resolved, s1)))"

text \<open>
  Lines 79 to 84: the try block after the handler's promise was fulfilled. Calling
  \<open>null\<close> on line 81 would throw a TypeError, caught like any other.
\<close>

definition after_handler :: "engine \<Rightarrow> call_state \<Rightarrow> outcome \<times> call_state" where
  "after_handler eng s =
     (if nextWasCalled s then
        (case await_nextPromise s of
           Forever s1 \<Rightarrow> (Stalled, s1)
         | Resumed s1 \<Rightarrow>
             (case returnHandlerCallback s1 of
                None \<Rightarrow> catch_block eng (JError ''TypeError'') s1
              | Some c \<Rightarrow>
                  (case call_callback c JNull s1 of
                     Inl (x, s2) \<Rightarrow> catch_block eng x s2
                   | Inr s2 \<Rightarrow> (Resolved, s2))))
      else
        (case call_end eng JNull s of
           Inl (x, s1) \<Rightarrow> catch_block eng x s1
         | Inr s1 \<Rightarrow> (Resolved, s1)))"

text \<open>
  Lines 49 to 92. The \<open>await\<close> of line 77 gives up control once more after the handler's
  promise is settled, before line 79 or the catch block runs.
\<close>

definition createAsyncMiddleware ::
  "action list \<Rightarrow> engine \<Rightarrow> request \<Rightarrow> response \<Rightarrow> outcome \<times> call_state" where
  "createAsyncMiddleware asyncMiddleware eng rq rs =
     (case run_handler eng asyncMiddleware (init rq rs) of
        Returned s \<Rightarrow> after_handler eng (tick s)
      | Threw e s \<Rightarrow> catch_block eng e (tick s)
      | Hung s \<Rightarrow> (Stalled, s))"

section \<open>Vocabulary of the properties\<close>

text \<open>
  The completion channels are the engine's \<open>end\<close> and the captured callback;
  \<open>completions\<close> are the events of a call on either channel, and \<open>once\<close> says that
  there is exactly one, on one channel.
\<close>

fun is_completion :: "event \<Rightarrow> bool" where
  "is_completion (EvEnd e r) = True"
| "is_completion (EvCallback c e r) = True"
| "is_completion EvNext = False"
| "is_completion (EvSupplied c) = False"

definition completions :: "event list \<Rightarrow> event list" where
  "completions tr = filter is_completion tr"


definition next_count :: "call_state \<Rightarrow> nat" where
  "next_count s = count_list (trace s) EvNext"

text \<open>
  The engine's side of the contract: every call of \<open>next\<close> leads to the return handler
  being invoked (\<open>engine_supplies\<close>; "The return handler will always be called"), and
  neither \<open>end\<close> nor a callback the engine hands over throws (\<open>engine_quiet\<close>).
\<close>

fun supplies :: "next_behaviour \<Rightarrow> bool" where
  "supplies (Sync c) = True"
| "supplies (Defer k c) = True"
| "supplies NoCallback = False"
| "supplies (NextThrows e) = False"


definition engine_supplies :: "engine \<Rightarrow> bool" where
  "engine_supplies eng = (list_all supplies (next_script eng) \<and> supplies (next_otherwise eng))"


text \<open>
  What a handler execution does, read off its actions: whether an action invokes the
  continuation, throws or writes the request, and the response and the request after the
  handler's own writes.
\<close>

fun continues :: "action \<Rightarrow> bool" where
  "continues CallNext = True"
| "continues AwaitNext = True"
| "continues a = False"

fun throws :: "action \<Rightarrow> bool" where
  "throws (Throw e) = True"
| "throws a = False"

fun sets_request :: "action \<Rightarrow> bool" where
  "sets_request (SetParams v) = True"
| "sets_request a = False"

fun written :: "action list \<Rightarrow> response \<Rightarrow> response" where
  "written [] r = r"
| "written (SetResult v # h) r = written h (r\<lparr> res_result := Some v \<rparr>)"
| "written (a # h) r = written h r"

fun requested :: "action list \<Rightarrow> request \<Rightarrow> request" where
  "requested [] r = r"
| "requested (SetParams v # h) r = requested h (r\<lparr> req_params := v \<rparr>)"
| "requested (a # h) r = requested h r"

text \<open>The state inside a result, and a function applied to it.\<close>

fun state_of :: "handler_result \<Rightarrow> call_state" where
  "state_of (Returned s) = s"
| "state_of (Threw e s) = s"
| "state_of (Hung s) = s"

fun waited :: "wait_result \<Rightarrow> call_state" where
  "waited (Resumed s) = s"
| "waited (Forever s) = s"

fun entered :: "(jsval \<times> call_state) + call_state \<Rightarrow> call_state" where
  "entered (Inl (e, s)) = s"
| "entered (Inr s) = s"

fun on_wait :: "(call_state \<Rightarrow> call_state) \<Rightarrow> wait_result \<Rightarrow> wait_result" where
  "on_wait f (Resumed s) = Resumed (f s)"
| "on_wait f (Forever s) = Forever (f s)"

fun on_result :: "(call_state \<Rightarrow> call_state) \<Rightarrow> handler_result \<Rightarrow> handler_result" where
  "on_result f (Returned s) = Returned (f s)"
| "on_result f (Threw e s) = Threw e (f s)"
| "on_result f (Hung s) = Hung (f s)"

text \<open>
  Invariants of the states of a call. A resolved \<open>nextPromise\<close> comes with a captured
  callback, which the engine supplied (\<open>inv_captured\<close>). With an engine that supplies,
  once the continuation was invoked the promise is resolved or a return handler is still
  to be invoked (\<open>inv_supply\<close>). With a quiet engine no callback in the state throws
  (\<open>inv_quiet\<close>). Before the continuation is invoked nothing has happened
  (\<open>inv_idle\<close>).
\<close>

definition inv_captured :: "call_state \<Rightarrow> bool" where
  "inv_captured s =
     ((nextPromiseResolved s \<longrightarrow> returnHandlerCallback s \<noteq> None) \<and>
      (\<forall>c. returnHandlerCallback s = Some c \<longrightarrow> EvSupplied c \<in> set (trace s)))"

definition inv_supply :: "call_state \<Rightarrow> bool" where
  "inv_supply s = (nextWasCalled s \<longrightarrow> nextPromiseResolved s \<or> queued s \<noteq> [])"

definition inv_quiet :: "call_state \<Rightarrow> bool" where
  "inv_quiet s =
     ((\<forall>c. returnHandlerCallback s = Some c \<longrightarrow> cb_throws c = None) \<and>
      (\<forall>d \<in> set (queued s). cb_throws (snd d) = None))"

definition inv_idle :: "call_state \<Rightarrow> bool" where
  "inv_idle s =
     (\<not> nextWasCalled s \<longrightarrow>
        trace s = [] \<and> queued s = [] \<and> returnHandlerCallback s = None \<and> \<not> nextPromiseResolved s)"


text \<open>
  \<open>forget\<close> erases the request of a state; \<open>finish\<close> is the body of the produced
  middleware after the handler's promise is settled.
\<close>

definition forget :: "call_state \<Rightarrow> call_state" where
  "forget s = s\<lparr> st_req := \<lparr> req_id = JNull, req_method = [], req_params = JNull \<rparr> \<rparr>"

definition finish :: "engine \<Rightarrow> handler_result \<Rightarrow> outcome \<times> call_state" where
  "finish eng r =
     (case r of
        Returned s \<Rightarrow> after_handler eng (tick s)
      | Threw e s \<Rightarrow> catch_block eng e (tick s)
      | Hung s \<Rightarrow> (Stalled, s))"

section \<open>Lemmas\<close>

subsection \<open>Scheduling points and waits\<close>

lemma foldl_deliver:
  "foldl (\<lambda>a c. deliver c a) s cs =
     (if cs = [] then s
      else s\<lparr> returnHandlerCallback := Some (last cs), nextPromiseResolved := True,
              trace := trace s @ map EvSupplied cs \<rparr>)"
proof (induction cs arbitrary: s)
  case Nil
  then show ?case by simp
next
  case (Cons c cs)
  then show ?case by (simp add: deliver_def)
qed

lemma tick_eq:
  "tick s =
     (if due (queued s) = [] then s\<lparr> queued := later (queued s) \<rparr>
      else s\<lparr> queued := later (queued s),
              returnHandlerCallback := Some (last (due (queued s))),
              nextPromiseResolved := True,
              trace := trace s @ map EvSupplied (due (queued s)) \<rparr>)"
  by (simp add: tick_def foldl_deliver)

lemma nth_behaviour_supplies: "engine_supplies eng \<Longrightarrow> supplies (nth_behaviour eng i)"
  by (simp add: engine_supplies_def nth_behaviour_def list_all_length)


lemma settle_stable:
  assumes step: "\<And>s. P s \<Longrightarrow> P (tick s)"
  shows "P s \<Longrightarrow> P (waited (settle s))"
proof (induction s rule: settle.induct)
  case (1 s)
  show ?case
  proof (cases "nextPromiseResolved s \<or> queued s = []")
    case True
    with "1.prems" show ?thesis by (auto simp: settle.simps [of s])
  next
    case False
    then have "settle s = settle (tick s)" by (simp add: settle.simps [of s])
    moreover have "P (waited (settle (tick s)))"
      using False "1.IH" step [OF "1.prems"] by simp
    ultimately show ?thesis by simp
  qed
qed

lemma settle_Resumed: "settle s = Resumed s' \<Longrightarrow> nextPromiseResolved s'"
proof (induction s rule: settle.induct)
  case (1 s)
  then show ?case
    by (cases "nextPromiseResolved s"; cases "queued s = []") (auto simp: settle.simps [of s])
qed

lemma settle_Forever: "settle s = Forever s' \<Longrightarrow> \<not> nextPromiseResolved s' \<and> queued s' = []"
proof (induction s rule: settle.induct)
  case (1 s)
  then show ?case
    by (cases "nextPromiseResolved s"; cases "queued s = []") (auto simp: settle.simps [of s])
qed

lemma await_stable:
  "(\<And>s. P s \<Longrightarrow> P (tick s)) \<Longrightarrow> P s \<Longrightarrow> P (waited (await_nextPromise s))"
  using settle_stable [of P s]
  by (cases "settle s") (simp_all add: await_nextPromise_def)

subsection \<open>What every step of a handler preserves\<close>

lemma run_handler_stable:
  assumes t: "\<And>s. P s \<Longrightarrow> P (tick s)"
    and c: "\<And>s. P s \<Longrightarrow> P (entered (asyncNext_call eng s))"
    and w: "\<And>s v. P s \<Longrightarrow> P (s\<lparr> st_res := (st_res s)\<lparr> res_result := Some v \<rparr> \<rparr>)"
    and q: "\<And>s v. P s \<Longrightarrow> P (s\<lparr> st_req := (st_req s)\<lparr> req_params := v \<rparr> \<rparr>)"
  shows "P s \<Longrightarrow> P (state_of (run_handler eng h s))"
proof (induction h arbitrary: s)
  case Nil
  then show ?case by simp
next
  case (Cons a h)
  show ?case
  proof (cases a)
    case (SetResult v)
    with Cons w show ?thesis by simp
  next
    case (SetParams v)
    with Cons q show ?thesis by simp
  next
    case Yield
    with Cons t show ?thesis by simp
  next
    case CallNext
    have "P (entered (asyncNext_call eng s))" using Cons.prems by (rule c)
    with Cons.IH CallNext show ?thesis
      by (cases "asyncNext_call eng s") auto
  next
    case AwaitNext
    have e: "P (entered (asyncNext_call eng s))" using Cons.prems by (rule c)
    show ?thesis
    proof (cases "asyncNext_call eng s")
      case (Inl p)
      obtain x s1 where p: "p = (x, s1)" by (cases p)
      with Inl e t have "P (tick s1)" by simp
      with Inl p AwaitNext show ?thesis by (simp add: asyncNext_def)
    next
      case (Inr s1)
      with e have "P s1" by simp
      then have "P (waited (await_nextPromise s1))" using t by (rule await_stable [rotated])
      with Inr AwaitNext Cons.IH t show ?thesis
        by (cases "await_nextPromise s1") (simp_all add: asyncNext_def)
    qed
  next
    case (Throw e)
    with Cons.prems show ?thesis by simp
  qed
qed

subsection \<open>The invariants hold in every state of a call\<close>

lemma due_last_in: "due q \<noteq> [] \<Longrightarrow> last (due q) \<in> set (due q)"
  by simp

lemma inv_captured_tick: "inv_captured s \<Longrightarrow> inv_captured (tick s)"
  by (auto simp: inv_captured_def tick_eq)

lemma inv_captured_call: "inv_captured s \<Longrightarrow> inv_captured (entered (asyncNext_call eng s))"
  by (auto simp: inv_captured_def asyncNext_call_def Let_def deliver_def split: next_behaviour.splits)

lemma inv_captured_run:
  "inv_captured s \<Longrightarrow> inv_captured (state_of (run_handler eng h s))"
  by (rule run_handler_stable [where P = inv_captured])
     (simp_all add: inv_captured_tick inv_captured_call, simp_all add: inv_captured_def)

lemma later_empty: "later q = [] \<Longrightarrow> q \<noteq> [] \<Longrightarrow> due q \<noteq> []"
  by (cases q) (auto simp: later_def due_def filter_empty_conv split: if_splits)

lemma inv_supply_tick: "inv_supply s \<Longrightarrow> inv_supply (tick s)"
  using later_empty [of "queued s"] by (auto simp: inv_supply_def tick_eq)

lemma inv_supply_call:
  "engine_supplies eng \<Longrightarrow> inv_supply (entered (asyncNext_call eng s))"
  using nth_behaviour_supplies [of eng "nextCalls s"]
  by (auto simp: inv_supply_def asyncNext_call_def Let_def deliver_def split: next_behaviour.splits)

lemma inv_supply_run:
  "engine_supplies eng \<Longrightarrow> inv_supply s \<Longrightarrow> inv_supply (state_of (run_handler eng h s))"
  by (rule run_handler_stable [where P = inv_supply])
     (simp_all add: inv_supply_tick inv_supply_call, simp_all add: inv_supply_def)




lemma no_completion_tick: "completions (trace s) = [] \<Longrightarrow> completions (trace (tick s)) = []"
  by (auto simp: tick_eq completions_def filter_empty_conv)

lemma no_completion_call:
  "completions (trace s) = [] \<Longrightarrow> completions (trace (entered (asyncNext_call eng s))) = []"
  by (auto simp: completions_def asyncNext_call_def Let_def deliver_def split: next_behaviour.splits)

lemma no_completion_run:
  "completions (trace s) = [] \<Longrightarrow> completions (trace (state_of (run_handler eng h s))) = []"
  by (rule run_handler_stable [where P = "\<lambda>s. completions (trace s) = []"])
     (simp_all add: no_completion_tick no_completion_call)

lemma init_invs:
  "inv_captured (init rq rs)" "inv_supply (init rq rs)" "inv_quiet (init rq rs)"
  "completions (trace (init rq rs)) = []"
  by (simp_all add: init_def inv_captured_def inv_supply_def inv_quiet_def completions_def)

subsection \<open>The flag, and waits that end\<close>

lemma called_flag: "nextWasCalled (entered (asyncNext_call eng s))"
  by (simp add: asyncNext_call_def Let_def deliver_def split: next_behaviour.splits)

lemma flag_tick: "nextWasCalled (tick s) = nextWasCalled s"
  by (simp add: tick_eq)

lemma flag_await: "nextWasCalled s \<Longrightarrow> nextWasCalled (waited (await_nextPromise s))"
  by (rule await_stable) (simp_all add: flag_tick)

lemma await_Forever:
  "await_nextPromise s = Forever s' \<Longrightarrow> \<not> nextPromiseResolved s' \<and> queued s' = []"
  using settle_Forever [of s s']
  by (cases "settle s") (simp_all add: await_nextPromise_def)

lemma await_Resumed: "await_nextPromise s = Resumed s' \<Longrightarrow> nextPromiseResolved s'"
proof (cases "settle s")
  case (Resumed s1)
  assume "await_nextPromise s = Resumed s'"
  with Resumed have "s' = tick s1" by (simp add: await_nextPromise_def)
  with settle_Resumed [OF Resumed] show ?thesis by (simp add: tick_eq)
next
  case (Forever s1)
  assume "await_nextPromise s = Resumed s'"
  with Forever show ?thesis by (simp add: await_nextPromise_def)
qed



subsection \<open>The try block and the catch block\<close>

lemma catch_block_trace:
  "trace (snd (catch_block eng e s)) =
     trace s @ [case returnHandlerCallback s of
                  None \<Rightarrow> EvEnd e (st_res s) | Some c \<Rightarrow> EvCallback c e (st_res s)]"
  by (simp add: catch_block_def call_end_def call_callback_def Let_def split: option.splits)



lemma await_resumes:
  assumes "nextWasCalled s" "inv_supply s"
  shows "\<exists>s1. await_nextPromise s = Resumed s1"
proof (cases "await_nextPromise s")
  case (Resumed s1)
  then show ?thesis by simp
next
  case (Forever s1)
  have "inv_supply (waited (await_nextPromise s))"
    using assms(2) by (rule await_stable [rotated]) (rule inv_supply_tick)
  moreover have "nextWasCalled (waited (await_nextPromise s))" using assms(1) by (rule flag_await)
  ultimately show ?thesis using Forever await_Forever [OF Forever] by (simp add: inv_supply_def)
qed

lemma await_res: "st_res (waited (await_nextPromise s)) = st_res s"
  by (rule await_stable [where P = "\<lambda>t. st_res t = st_res s"]) (simp_all add: tick_eq)

lemma await_completions:
  "completions (trace (waited (await_nextPromise s))) = completions (trace s)"
  by (rule await_stable [where P = "\<lambda>t. completions (trace t) = completions (trace s)"])
     (simp_all add: tick_eq completions_def)


subsection \<open>Before and after the continuation is invoked\<close>

lemma inv_idle_tick: "inv_idle s \<Longrightarrow> inv_idle (tick s)"
  by (auto simp: inv_idle_def tick_eq due_def later_def)

lemma inv_idle_run: "inv_idle s \<Longrightarrow> inv_idle (state_of (run_handler eng h s))"
  by (rule run_handler_stable [where P = inv_idle])
     (simp_all add: inv_idle_tick, simp_all add: inv_idle_def called_flag)

lemma idle_tick: "inv_idle s \<Longrightarrow> \<not> nextWasCalled s \<Longrightarrow> tick s = s"
  by (simp add: inv_idle_def tick_eq due_def later_def)

lemma res_tick: "st_res (tick s) = st_res s"
  by (simp add: tick_eq)

lemma captured_tick:
  "returnHandlerCallback s = Some c \<Longrightarrow>
     returnHandlerCallback (tick s) =
       (if due (queued s) = [] then Some c else Some (last (due (queued s))))"
  by (simp add: tick_eq)

lemma flag_run: "nextWasCalled s \<Longrightarrow> nextWasCalled (state_of (run_handler eng h s))"
  by (rule run_handler_stable [where P = nextWasCalled]) (simp_all add: flag_tick called_flag)

lemma returned_flag:
  "run_handler eng h s = Returned s' \<Longrightarrow> list_ex continues h \<Longrightarrow> nextWasCalled s'"
proof (induction h arbitrary: s)
  case Nil
  then show ?case by simp
next
  case (Cons a h)
  show ?case
  proof (cases a)
    case CallNext
    let ?s1 = "entered (asyncNext_call eng s)"
    from Cons.prems(1) CallNext have "run_handler eng h ?s1 = Returned s'"
      by (cases "asyncNext_call eng s") auto
    with flag_run [OF called_flag [of eng s], of eng h] show ?thesis by simp
  next
    case AwaitNext
    show ?thesis
    proof (cases "asyncNext_call eng s")
      case (Inl p)
      with Cons.prems(1) AwaitNext show ?thesis by (cases p) (simp add: asyncNext_def)
    next
      case (Inr s1)
      have f: "nextWasCalled s1" using called_flag [of eng s] Inr by simp
      show ?thesis
      proof (cases "await_nextPromise s1")
        case (Resumed s2)
        with Cons.prems(1) Inr AwaitNext have r: "run_handler eng h (tick s2) = Returned s'"
          by (simp add: asyncNext_def)
        from flag_await [OF f] Resumed have "nextWasCalled (tick s2)" by (simp add: flag_tick)
        from flag_run [OF this, of eng h] r show ?thesis by simp
      next
        case (Forever s2)
        with Cons.prems(1) Inr AwaitNext show ?thesis by (simp add: asyncNext_def)
      qed
    qed
  qed (use Cons in auto)
qed

lemma after_handler_waits:
  assumes "nextWasCalled s" "inv_supply s" "inv_captured s"
  shows "\<exists>s1 c post. await_nextPromise s = Resumed s1 \<and> returnHandlerCallback s1 = Some c \<and>
           EvSupplied c \<in> set (trace s1) \<and>
           trace (snd (after_handler eng s)) = trace s1 @ EvCallback c JNull (st_res s1) # post"
proof -
  obtain s1 where r: "await_nextPromise s = Resumed s1"
    using await_resumes [OF assms(1,2)] by blast
  have "inv_captured (waited (await_nextPromise s))"
    using assms(3) by (rule await_stable [rotated]) (rule inv_captured_tick)
  then have c: "inv_captured s1" using r by simp
  from await_Resumed [OF r] c obtain c1 where c1: "returnHandlerCallback s1 = Some c1"
    by (auto simp: inv_captured_def)
  with c have s: "EvSupplied c1 \<in> set (trace s1)" by (simp add: inv_captured_def)
  have "\<exists>post. trace (snd (after_handler eng s)) = trace s1 @ EvCallback c1 JNull (st_res s1) # post"
    using r c1 assms(1)
    by (cases "cb_throws c1")
       (simp_all add: after_handler_def call_callback_def catch_block_trace)
  with r c1 s show ?thesis by blast
qed

lemma res_call: "st_res (entered (asyncNext_call eng s)) = st_res s"
  by (simp add: asyncNext_call_def Let_def deliver_def split: next_behaviour.splits)

lemma returned_res:
  "run_handler eng h s = Returned s' \<Longrightarrow> st_res s' = written h (st_res s)"
proof (induction h arbitrary: s)
  case Nil
  then show ?case by simp
next
  case (Cons a h)
  show ?case
  proof (cases a)
    case CallNext
    from Cons.prems CallNext have "run_handler eng h (entered (asyncNext_call eng s)) = Returned s'"
      by (cases "asyncNext_call eng s") auto
    from Cons.IH [OF this] CallNext show ?thesis by (simp add: res_call)
  next
    case AwaitNext
    show ?thesis
    proof (cases "asyncNext_call eng s")
      case (Inl p)
      with Cons.prems AwaitNext show ?thesis by (cases p) (simp add: asyncNext_def)
    next
      case (Inr s1)
      have r: "st_res s1 = st_res s" using res_call [of eng s] Inr by simp
      show ?thesis
      proof (cases "await_nextPromise s1")
        case (Resumed s2)
        with Cons.prems Inr AwaitNext have "run_handler eng h (tick s2) = Returned s'"
          by (simp add: asyncNext_def)
        from Cons.IH [OF this] await_res [of s1] Resumed r AwaitNext show ?thesis
          by (simp add: res_tick)
      next
        case (Forever s2)
        with Cons.prems Inr AwaitNext show ?thesis by (simp add: asyncNext_def)
      qed
    qed
  next
    case Yield
    with Cons show ?thesis by (simp add: res_tick)
  qed (use Cons in auto)
qed

lemma unrequested_flag:
  "\<not> list_ex continues h \<Longrightarrow> \<not> nextWasCalled s \<Longrightarrow>
     \<not> nextWasCalled (state_of (run_handler eng h s))"
proof (induction h arbitrary: s)
  case Nil
  then show ?case by simp
next
  case (Cons a h)
  then show ?case by (cases a) (simp_all add: flag_tick)
qed




subsection \<open>The request is not read\<close>

lemma forget_idem: "forget (forget s) = forget s"
  by (simp add: forget_def)

lemma forget_tick: "tick (forget s) = forget (tick s)"
  by (simp add: tick_eq forget_def)

lemma forget_settle: "settle (forget s) = on_wait forget (settle s)"
proof (induction s rule: settle.induct)
  case (1 s)
  have q: "queued (forget s) = queued s" "nextPromiseResolved (forget s) = nextPromiseResolved s"
    by (simp_all add: forget_def)
  show ?case
  proof (cases "nextPromiseResolved s \<or> queued s = []")
    case True
    then show ?thesis using q by (auto simp: settle.simps [of s] settle.simps [of "forget s"])
  next
    case False
    then have "settle (forget s) = settle (tick (forget s))" "settle s = settle (tick s)"
      using q by (simp_all add: settle.simps [of s] settle.simps [of "forget s"])
    with False "1.IH" show ?thesis by (simp add: forget_tick)
  qed
qed

lemma forget_await: "await_nextPromise (forget s) = on_wait forget (await_nextPromise s)"
  by (cases "settle s") (simp_all add: await_nextPromise_def forget_tick forget_settle)

lemma forget_call:
  "asyncNext_call eng (forget s) = map_sum (map_prod id forget) forget (asyncNext_call eng s)"
  by (simp add: asyncNext_call_def Let_def deliver_def forget_def split: next_behaviour.splits)

lemma forget_write:
  "forget (s\<lparr> st_req := r \<rparr>) = forget s"
  "forget (s\<lparr> st_res := w \<rparr>) = (forget s)\<lparr> st_res := w \<rparr>"
  "st_res (forget s) = st_res s"
  by (simp_all add: forget_def)

lemma forget_run:
  "on_result forget (run_handler eng h (forget s)) = on_result forget (run_handler eng h s)"
proof (induction h arbitrary: s)
  case Nil
  then show ?case by (simp add: forget_idem)
next
  case (Cons a h)
  show ?case
  proof (cases a)
    case (SetResult v)
    have "on_result forget (run_handler eng h ((forget s)\<lparr> st_res := (st_res s)\<lparr> res_result := Some v \<rparr> \<rparr>))
        = on_result forget (run_handler eng h (s\<lparr> st_res := (st_res s)\<lparr> res_result := Some v \<rparr> \<rparr>))"
      using Cons.IH [of "s\<lparr> st_res := (st_res s)\<lparr> res_result := Some v \<rparr> \<rparr>"]
      by (simp add: forget_write)
    with SetResult show ?thesis by (simp add: forget_write)
  next
    case (SetParams v)
    have "on_result forget (run_handler eng h ((forget s)\<lparr> st_req := (st_req (forget s))\<lparr> req_params := v \<rparr> \<rparr>))
        = on_result forget (run_handler eng h (forget s))"
      using Cons.IH [of "(forget s)\<lparr> st_req := (st_req (forget s))\<lparr> req_params := v \<rparr> \<rparr>"]
      by (simp add: forget_write forget_idem)
    moreover have "on_result forget (run_handler eng h (s\<lparr> st_req := (st_req s)\<lparr> req_params := v \<rparr> \<rparr>))
        = on_result forget (run_handler eng h (forget s))"
      using Cons.IH [of "s\<lparr> st_req := (st_req s)\<lparr> req_params := v \<rparr> \<rparr>"]
      by (simp add: forget_write)
    ultimately show ?thesis using SetParams by simp
  next
    case Yield
    with Cons.IH [of "tick s"] show ?thesis by (simp add: forget_tick)
  next
    case CallNext
    show ?thesis
    proof (cases "asyncNext_call eng s")
      case (Inl p)
      obtain x s1 where p: "p = (x, s1)" by (cases p)
      with Inl CallNext Cons.IH [of s1] show ?thesis by (simp add: forget_call)
    next
      case (Inr s1)
      with CallNext Cons.IH [of s1] show ?thesis by (simp add: forget_call)
    qed
  next
    case AwaitNext
    show ?thesis
    proof (cases "asyncNext_call eng s")
      case (Inl p)
      obtain x s1 where p: "p = (x, s1)" by (cases p)
      with Inl AwaitNext show ?thesis
        by (simp add: asyncNext_def forget_call forget_tick forget_idem)
    next
      case (Inr s1)
      show ?thesis
      proof (cases "await_nextPromise s1")
        case (Resumed s2)
        with Inr AwaitNext Cons.IH [of "tick s2"] show ?thesis
          by (simp add: asyncNext_def forget_call forget_await forget_tick)
      next
        case (Forever s2)
        with Inr AwaitNext show ?thesis
          by (simp add: asyncNext_def forget_call forget_await forget_idem)
      qed
    qed
  next
    case (Throw e)
    then show ?thesis by (simp add: forget_idem)
  qed
qed

lemma forget_catch:
  "catch_block eng e (forget s) = map_prod id forget (catch_block eng e s)"
  by (simp add: catch_block_def call_end_def call_callback_def Let_def forget_def
      split: option.splits)

lemma forget_after:
  "after_handler eng (forget s) = map_prod id forget (after_handler eng s)"
proof (cases "nextWasCalled s")
  case False
  then have n: "\<not> nextWasCalled (forget s)" by (simp add: forget_def)
  have "call_end eng JNull (forget s) =
      map_sum (map_prod id forget) forget (call_end eng JNull s)"
    by (simp add: call_end_def Let_def forget_def split: option.splits)
  with False n show ?thesis
    by (cases "call_end eng JNull s") (auto simp: after_handler_def forget_catch)
next
  case True
  then have f: "nextWasCalled (forget s)" by (simp add: forget_def)
  show ?thesis
  proof (cases "await_nextPromise s")
    case (Forever s1)
    with True f show ?thesis by (simp add: after_handler_def forget_await)
  next
    case (Resumed s1)
    have c: "returnHandlerCallback (forget s1) = returnHandlerCallback s1" by (simp add: forget_def)
    show ?thesis
    proof (cases "returnHandlerCallback s1")
      case None
      with True f Resumed c show ?thesis by (simp add: after_handler_def forget_await forget_catch)
    next
      case (Some cb)
      have "call_callback cb JNull (forget s1) =
          map_sum (map_prod id forget) forget (call_callback cb JNull s1)"
        by (simp add: call_callback_def Let_def forget_def split: option.splits)
      with True f Resumed c Some show ?thesis
        by (cases "call_callback cb JNull s1")
           (auto simp: after_handler_def forget_await forget_catch)
    qed
  qed
qed

lemma forget_finish:
  "finish eng (on_result forget r) = map_prod id forget (finish eng r)"
  by (cases r) (simp_all add: finish_def forget_tick forget_after forget_catch)

lemma forget_init: "forget (init rq rs) = forget (init rq' rs)"
  by (simp add: forget_def init_def)

lemma forget_middleware:
  "map_prod id forget (createAsyncMiddleware h eng rq rs) =
   map_prod id forget (createAsyncMiddleware h eng rq' rs)"
proof -
  have "on_result forget (run_handler eng h (init rq rs)) =
        on_result forget (run_handler eng h (init rq' rs))"
    using forget_run [of eng h "init rq rs"] forget_run [of eng h "init rq' rs"]
    by (simp add: forget_init [of rq rs rq'])
  then have "finish eng (on_result forget (run_handler eng h (init rq rs))) =
             finish eng (on_result forget (run_handler eng h (init rq' rs)))"
    by simp
  then have "map_prod id forget (finish eng (run_handler eng h (init rq rs))) =
             map_prod id forget (finish eng (run_handler eng h (init rq' rs)))"
    by (simp only: forget_finish)
  moreover have "\<And>r. createAsyncMiddleware h eng r rs = finish eng (run_handler eng h (init r rs))"
    by (simp add: createAsyncMiddleware_def finish_def)
  ultimately show ?thesis by simp
qed

subsection \<open>The request is written by the handler only\<close>

lemma req_tick: "st_req (tick s) = st_req s"
  by (simp add: tick_eq)

lemma req_call: "st_req (entered (asyncNext_call eng s)) = st_req s"
  by (simp add: asyncNext_call_def Let_def deliver_def split: next_behaviour.splits)

lemma req_await: "st_req (waited (await_nextPromise s)) = st_req s"
  by (rule await_stable [where P = "\<lambda>t. st_req t = st_req s"]) (simp_all add: req_tick)

lemma req_catch: "st_req (snd (catch_block eng e s)) = st_req s"
  by (simp add: catch_block_def call_end_def call_callback_def Let_def split: option.splits)

lemma req_after: "st_req (snd (after_handler eng s)) = st_req s"
proof (cases "nextWasCalled s")
  case False
  then show ?thesis
    by (cases "end_throws eng") (simp_all add: after_handler_def call_end_def req_catch)
next
  case True
  show ?thesis
  proof (cases "await_nextPromise s")
    case (Forever s1)
    with True req_await [of s] show ?thesis by (simp add: after_handler_def)
  next
    case (Resumed s1)
    with req_await [of s] have r: "st_req s1 = st_req s" by simp
    show ?thesis
    proof (cases "returnHandlerCallback s1")
      case None
      with True Resumed r show ?thesis by (simp add: after_handler_def req_catch)
    next
      case (Some c)
      with True Resumed r show ?thesis
        by (cases "cb_throws c") (simp_all add: after_handler_def call_callback_def req_catch)
    qed
  qed
qed

lemma req_run:
  "\<exists>k\<le>length h. st_req (state_of (run_handler eng h s)) = requested (take k h) (st_req s)"
proof (induction h arbitrary: s)
  case Nil
  then show ?case by simp
next
  case (Cons a h)
  have step: "\<And>s1::call_state. st_req s1 = requested [a] (st_req s) \<Longrightarrow>
      \<exists>k\<le>length (a # h). st_req (state_of (run_handler eng h s1)) = requested (take k (a # h)) (st_req s)"
  proof -
    fix s1 :: call_state
    assume e: "st_req s1 = requested [a] (st_req s)"
    from Cons.IH [of s1] obtain k where k: "k \<le> length h"
      and r: "st_req (state_of (run_handler eng h s1)) = requested (take k h) (st_req s1)"
      by blast
    have "requested (take (Suc k) (a # h)) (st_req s) = requested (take k h) (st_req s1)"
      using e by (cases a) simp_all
    with k r show "\<exists>k\<le>length (a # h). st_req (state_of (run_handler eng h s1)) =
        requested (take k (a # h)) (st_req s)"
      by (intro exI [of _ "Suc k"]) simp
  qed
  have stop: "\<And>s1::call_state. st_req s1 = st_req s \<Longrightarrow>
      \<exists>k\<le>length (a # h). st_req s1 = requested (take k (a # h)) (st_req s)"
    by (intro exI [of _ 0]) simp
  show ?case
  proof (cases a)
    case (SetResult v)
    with step [of "s\<lparr> st_res := (st_res s)\<lparr> res_result := Some v \<rparr> \<rparr>"] show ?thesis by simp
  next
    case (SetParams v)
    with step [of "s\<lparr> st_req := (st_req s)\<lparr> req_params := v \<rparr> \<rparr>"] show ?thesis by simp
  next
    case Yield
    with step [of "tick s"] show ?thesis by (simp add: req_tick)
  next
    case CallNext
    have "st_req (entered (asyncNext_call eng s)) = requested [a] (st_req s)"
      using CallNext by (simp add: req_call)
    from step [OF this] CallNext show ?thesis
      by (cases "asyncNext_call eng s") auto
  next
    case AwaitNext
    show ?thesis
    proof (cases "asyncNext_call eng s")
      case (Inl p)
      obtain x s1 where p: "p = (x, s1)" by (cases p)
      with Inl req_call [of eng s] have "st_req (tick s1) = st_req s" by (simp add: req_tick)
      from stop [OF this] Inl p AwaitNext show ?thesis by (simp add: asyncNext_def)
    next
      case (Inr s1)
      with req_call [of eng s] have r1: "st_req s1 = st_req s" by simp
      show ?thesis
      proof (cases "await_nextPromise s1")
        case (Resumed s2)
        with req_await [of s1] r1 have "st_req (tick s2) = requested [a] (st_req s)"
          using AwaitNext by (simp add: req_tick)
        from step [OF this] Inr Resumed AwaitNext show ?thesis by (simp add: asyncNext_def)
      next
        case (Forever s2)
        with req_await [of s1] r1 have "st_req s2 = st_req s" by simp
        from stop [OF this] Inr Forever AwaitNext show ?thesis by (simp add: asyncNext_def)
      qed
    qed
  next
    case (Throw e)
    with stop [of s] show ?thesis by simp
  qed
qed

lemma requested_none: "\<not> list_ex sets_request h \<Longrightarrow> requested h r = r"
proof (induction h arbitrary: r)
  case Nil
  then show ?case by simp
next
  case (Cons a h)
  then show ?case by (cases a) simp_all
qed

lemma requested_take_none: "\<not> list_ex sets_request h \<Longrightarrow> requested (take k h) r = r"
  by (rule requested_none) (auto simp: list_ex_iff dest: in_set_takeD)

lemma req_middleware:
  "\<exists>k\<le>length h. st_req (snd (createAsyncMiddleware h eng rq rs)) = requested (take k h) rq"
proof -
  from req_run [of h eng "init rq rs"] obtain k where k: "k \<le> length h"
    and r: "st_req (state_of (run_handler eng h (init rq rs))) = requested (take k h) rq"
    by (auto simp: init_def)
  have "st_req (snd (createAsyncMiddleware h eng rq rs)) =
        st_req (state_of (run_handler eng h (init rq rs)))"
    by (cases "run_handler eng h (init rq rs)")
       (simp_all add: createAsyncMiddleware_def req_after req_catch req_tick)
  with k r show ?thesis by auto
qed

subsection \<open>The flag is kept\<close>






lemma thrown_completions:
  assumes "run_handler eng h (init rq rs) = Threw e s"
  shows "completions (trace (snd (createAsyncMiddleware h eng rq rs))) =
           [case returnHandlerCallback (tick s) of
              None \<Rightarrow> EvEnd e (st_res s) | Some c \<Rightarrow> EvCallback c e (st_res s)]"
proof -
  have "completions (trace (state_of (run_handler eng h (init rq rs)))) = []"
    by (rule no_completion_run) (rule init_invs)
  with assms have "completions (trace (tick s)) = []" by (simp add: no_completion_tick)
  with assms show ?thesis
    by (simp add: createAsyncMiddleware_def catch_block_trace res_tick completions_def
        split: option.splits)
qed

subsection \<open>Calls of next\<close>

lemma count_tick: "next_count (tick s) = next_count s"
proof -
  have "count_list (map EvSupplied cs) EvNext = 0" for cs
    by (induction cs) simp_all
  then show ?thesis by (simp add: next_count_def tick_eq)
qed

lemma count_call: "next_count (entered (asyncNext_call eng s)) = Suc (next_count s)"
  by (simp add: next_count_def asyncNext_call_def Let_def deliver_def split: next_behaviour.splits)

lemma count_await: "next_count (waited (await_nextPromise s)) = next_count s"
  by (rule await_stable [where P = "\<lambda>t. next_count t = next_count s"]) (simp_all add: count_tick)

lemma count_catch: "next_count (snd (catch_block eng e s)) = next_count s"
  by (simp add: next_count_def catch_block_def call_end_def call_callback_def Let_def
      split: option.splits)

lemma count_after: "next_count (snd (after_handler eng s)) = next_count s"
proof (cases "nextWasCalled s")
  case False
  have "next_count (s\<lparr> trace := trace s @ [EvEnd JNull (st_res s)] \<rparr>) = next_count s"
    by (simp add: next_count_def)
  with False show ?thesis
    by (cases "end_throws eng") (simp_all add: after_handler_def call_end_def count_catch)
next
  case True
  show ?thesis
  proof (cases "await_nextPromise s")
    case (Forever s1)
    with True count_await [of s] show ?thesis by (simp add: after_handler_def)
  next
    case (Resumed s1)
    with count_await [of s] have r: "next_count s1 = next_count s" by simp
    show ?thesis
    proof (cases "returnHandlerCallback s1")
      case None
      with True Resumed r show ?thesis by (simp add: after_handler_def count_catch)
    next
      case (Some c)
      have "next_count (s1\<lparr> trace := trace s1 @ [EvCallback c JNull (st_res s1)] \<rparr>) = next_count s1"
        by (simp add: next_count_def)
      with True Resumed r Some show ?thesis
        by (cases "cb_throws c") (simp_all add: after_handler_def call_callback_def count_catch)
    qed
  qed
qed

lemma count_middleware:
  "next_count (snd (createAsyncMiddleware h eng rq rs)) =
   next_count (state_of (run_handler eng h (init rq rs)))"
  by (cases "run_handler eng h (init rq rs)")
     (simp_all add: createAsyncMiddleware_def count_after count_catch count_tick)

lemma count_write:
  "next_count (s\<lparr> st_res := w \<rparr>) = next_count s" "next_count (s\<lparr> st_req := r \<rparr>) = next_count s"
  by (simp_all add: next_count_def)

lemma count_unrequested:
  "\<not> list_ex continues h \<Longrightarrow> next_count (state_of (run_handler eng h s)) = next_count s"
proof (induction h arbitrary: s)
  case Nil
  then show ?case by simp
next
  case (Cons a h)
  then show ?case by (cases a) (simp_all add: count_tick count_write)
qed

lemma count_once:
  "continues a \<Longrightarrow> \<not> list_ex continues h \<Longrightarrow>
     next_count (state_of (run_handler eng (a # h) s)) = Suc (next_count s)"
proof (cases a)
  case CallNext
  assume n: "\<not> list_ex continues h"
  from count_unrequested [OF n, of eng "entered (asyncNext_call eng s)"] CallNext
    count_call [of eng s]
  show ?thesis by (cases "asyncNext_call eng s") auto
next
  case AwaitNext
  assume n: "\<not> list_ex continues h"
  show ?thesis
  proof (cases "asyncNext_call eng s")
    case (Inl p)
    obtain x s1 where p: "p = (x, s1)" by (cases p)
    with Inl count_call [of eng s] AwaitNext show ?thesis by (simp add: asyncNext_def count_tick)
  next
    case (Inr s1)
    with count_call [of eng s] have c: "next_count s1 = Suc (next_count s)" by simp
    show ?thesis
    proof (cases "await_nextPromise s1")
      case (Resumed s2)
      with count_await [of s1] c have "next_count (tick s2) = Suc (next_count s)"
        by (simp add: count_tick)
      with count_unrequested [OF n, of eng "tick s2"] Inr Resumed AwaitNext show ?thesis
        by (simp add: asyncNext_def)
    next
      case (Forever s2)
      with count_await [of s1] c Inr AwaitNext show ?thesis by (simp add: asyncNext_def)
    qed
  qed
qed simp_all

lemma plain_prefix:
  "\<not> list_ex continues pre \<Longrightarrow> \<not> list_ex throws pre \<Longrightarrow>
     \<exists>s'. run_handler eng (pre @ rest) s = run_handler eng rest s' \<and> next_count s' = next_count s"
proof (induction pre arbitrary: s)
  case Nil
  then show ?case by auto
next
  case (Cons a pre)
  show ?case
  proof (cases a)
    case (SetResult v)
    with Cons.prems Cons.IH [of "s\<lparr> st_res := (st_res s)\<lparr> res_result := Some v \<rparr> \<rparr>"]
    show ?thesis by (simp add: count_write)
  next
    case (SetParams v)
    with Cons.prems Cons.IH [of "s\<lparr> st_req := (st_req s)\<lparr> req_params := v \<rparr> \<rparr>"]
    show ?thesis by (simp add: count_write)
  next
    case Yield
    with Cons.prems Cons.IH [of "tick s"] show ?thesis by (simp add: count_tick)
  qed (use Cons.prems in simp_all)
qed



subsection \<open>A call that stays pending\<close>



section \<open>The claims\<close>




text \<open>
  C2. The error a handler throws is routed by the test of line 86, which runs when the
  catch block runs: one scheduling point after the throw. A handler that calls the
  continuation without awaiting it and throws at once, with an engine that invokes the
  return handler at the next scheduling point, throws while no callback is captured, and
  its error still goes to the callback, not to \<open>end\<close>.
\<close>

theorem error_routing_counterexample:
  "run_handler \<lparr> next_script = [], next_otherwise = Defer 0 (Callback 7 None), end_throws = None \<rparr>
       [CallNext, Throw (JError ''x'')]
       (init \<lparr> req_id = JNum 1, req_method = ''m'', req_params = JNull \<rparr>
             \<lparr> res_id = JNum 1, res_result = None, res_error = None \<rparr>)
     = Threw (JError ''x'')
         (state_of (run_handler \<lparr> next_script = [], next_otherwise = Defer 0 (Callback 7 None), end_throws = None \<rparr>
            [CallNext, Throw (JError ''x'')]
            (init \<lparr> req_id = JNum 1, req_method = ''m'', req_params = JNull \<rparr>
                  \<lparr> res_id = JNum 1, res_result = None, res_error = None \<rparr>))) \<and>
   returnHandlerCallback
     (state_of (run_handler \<lparr> next_script = [], next_otherwise = Defer 0 (Callback 7 None), end_throws = None \<rparr>
        [CallNext, Throw (JError ''x'')]
        (init \<lparr> req_id = JNum 1, req_method = ''m'', req_params = JNull \<rparr>
              \<lparr> res_id = JNum 1, res_result = None, res_error = None \<rparr>))) = None \<and>
   completions (trace (snd (createAsyncMiddleware [CallNext, Throw (JError ''x'')]
       \<lparr> next_script = [], next_otherwise = Defer 0 (Callback 7 None), end_throws = None \<rparr>
       \<lparr> req_id = JNum 1, req_method = ''m'', req_params = JNull \<rparr>
       \<lparr> res_id = JNum 1, res_result = None, res_error = None \<rparr>)))
     = [EvCallback (Callback 7 None) (JError ''x'')
          \<lparr> res_id = JNum 1, res_result = None, res_error = None \<rparr>]"
  by code_simp

text \<open>
  C2, as the code has it. When the handler throws \<open>e\<close>, the call ends with one more
  event: the callback captured when the catch block runs is invoked with \<open>e\<close>, or
  \<open>end\<close> is when none is captured then; the flag \<open>nextWasCalled\<close> plays no part. A throw
  before the continuation was invoked reaches \<open>end\<close>, and it is the only event. A throw
  after a callback was captured reaches a callback and not \<open>end\<close>: the one captured at the
  throw when no return handler is due at the scheduling point in between.
\<close>

theorem error_routing:
  assumes "run_handler eng h (init rq rs) = Threw e s"
  shows "trace (snd (createAsyncMiddleware h eng rq rs)) =
           trace (tick s) @
             [case returnHandlerCallback (tick s) of
                None \<Rightarrow> EvEnd e (st_res s) | Some c \<Rightarrow> EvCallback c e (st_res s)] \<and>
         (\<not> nextWasCalled s \<longrightarrow>
            trace (snd (createAsyncMiddleware h eng rq rs)) = [EvEnd e (st_res s)]) \<and>
         (\<forall>c. returnHandlerCallback s = Some c \<longrightarrow>
            (\<exists>c'. completions (trace (snd (createAsyncMiddleware h eng rq rs))) =
                     [EvCallback c' e (st_res s)]) \<and>
            (due (queued s) = [] \<longrightarrow>
               completions (trace (snd (createAsyncMiddleware h eng rq rs))) =
                 [EvCallback c e (st_res s)]))"
proof -
  let ?t = "trace (snd (createAsyncMiddleware h eng rq rs))"
  have main: "?t = trace (tick s) @
      [case returnHandlerCallback (tick s) of
         None \<Rightarrow> EvEnd e (st_res s) | Some c \<Rightarrow> EvCallback c e (st_res s)]"
    using assms
    by (simp add: createAsyncMiddleware_def catch_block_trace res_tick split: option.splits)
  have "inv_idle (state_of (run_handler eng h (init rq rs)))"
    by (rule inv_idle_run) (simp add: inv_idle_def init_def)
  with assms have idle: "inv_idle s" by simp
  have "completions (trace (state_of (run_handler eng h (init rq rs)))) = []"
    by (rule no_completion_run) (rule init_invs)
  with assms have "completions (trace (tick s)) = []" by (simp add: no_completion_tick)
  with main have comp: "completions ?t =
      [case returnHandlerCallback (tick s) of
         None \<Rightarrow> EvEnd e (st_res s) | Some c \<Rightarrow> EvCallback c e (st_res s)]"
    by (simp add: completions_def split: option.splits)
  have before: "\<not> nextWasCalled s \<longrightarrow> ?t = [EvEnd e (st_res s)]"
  proof
    assume n: "\<not> nextWasCalled s"
    with idle have "tick s = s" by (rule idle_tick)
    with main idle n show "?t = [EvEnd e (st_res s)]" by (simp add: inv_idle_def)
  qed
  have after: "\<forall>c. returnHandlerCallback s = Some c \<longrightarrow>
      (\<exists>c'. completions ?t = [EvCallback c' e (st_res s)]) \<and>
      (due (queued s) = [] \<longrightarrow> completions ?t = [EvCallback c e (st_res s)])"
    using comp by (auto simp: captured_tick)
  from main before after show ?thesis by blast
qed

theorem error_routing_witness:
  "run_handler \<lparr> next_script = [], next_otherwise = Sync (Callback 7 None), end_throws = None \<rparr>
       [Throw (JError ''x'')]
       (init \<lparr> req_id = JNum 1, req_method = ''m'', req_params = JNull \<rparr>
             \<lparr> res_id = JNum 1, res_result = None, res_error = None \<rparr>)
     = Threw (JError ''x'')
        (init \<lparr> req_id = JNum 1, req_method = ''m'', req_params = JNull \<rparr>
              \<lparr> res_id = JNum 1, res_result = None, res_error = None \<rparr>) \<and>
   trace (snd (createAsyncMiddleware [Throw (JError ''x'')]
       \<lparr> next_script = [], next_otherwise = Sync (Callback 7 None), end_throws = None \<rparr>
       \<lparr> req_id = JNum 1, req_method = ''m'', req_params = JNull \<rparr>
       \<lparr> res_id = JNum 1, res_result = None, res_error = None \<rparr>))
     = [EvEnd (JError ''x'') \<lparr> res_id = JNum 1, res_result = None, res_error = None \<rparr>] \<and>
   returnHandlerCallback
     (state_of (run_handler \<lparr> next_script = [], next_otherwise = Sync (Callback 7 None), end_throws = None \<rparr>
        [AwaitNext, Throw (JError ''x'')]
        (init \<lparr> req_id = JNum 1, req_method = ''m'', req_params = JNull \<rparr>
              \<lparr> res_id = JNum 1, res_result = None, res_error = None \<rparr>)))
     = Some (Callback 7 None) \<and>
   completions (trace (snd (createAsyncMiddleware [AwaitNext, Throw (JError ''x'')]
       \<lparr> next_script = [], next_otherwise = Sync (Callback 7 None), end_throws = None \<rparr>
       \<lparr> req_id = JNum 1, req_method = ''m'', req_params = JNull \<rparr>
       \<lparr> res_id = JNum 1, res_result = None, res_error = None \<rparr>)))
     = [EvCallback (Callback 7 None) (JError ''x'')
          \<lparr> res_id = JNum 1, res_result = None, res_error = None \<rparr>]"
proof -
  let ?E = "\<lparr> next_script = [], next_otherwise = Sync (Callback 7 None), end_throws = None \<rparr>"
  let ?rq = "\<lparr> req_id = JNum 1, req_method = ''m'', req_params = JNull \<rparr>"
  let ?rs = "\<lparr> res_id = JNum 1, res_result = None, res_error = None \<rparr>"
  have a: "run_handler ?E [Throw (JError ''x'')] (init ?rq ?rs) = Threw (JError ''x'') (init ?rq ?rs)"
    by simp
  have b: "run_handler ?E [AwaitNext, Throw (JError ''x'')] (init ?rq ?rs) =
      Threw (JError ''x'') (state_of (run_handler ?E [AwaitNext, Throw (JError ''x'')] (init ?rq ?rs)))"
    by code_simp
  have c: "returnHandlerCallback
      (state_of (run_handler ?E [AwaitNext, Throw (JError ''x'')] (init ?rq ?rs))) = Some (Callback 7 None)"
    by code_simp
  have d: "due (queued (state_of (run_handler ?E [AwaitNext, Throw (JError ''x'')] (init ?rq ?rs)))) = []"
    by code_simp
  have e: "\<not> nextWasCalled (init ?rq ?rs)" "st_res (init ?rq ?rs) = ?rs"
    by (simp_all add: init_def)
  have f: "st_res (state_of (run_handler ?E [AwaitNext, Throw (JError ''x'')] (init ?rq ?rs))) = ?rs"
    by code_simp
  from error_routing [OF a, THEN conjunct2, THEN conjunct1] e have 1: "trace (snd (createAsyncMiddleware [Throw (JError ''x'')] ?E ?rq ?rs))
     = [EvEnd (JError ''x'') ?rs]" by simp
  from error_routing [OF b, THEN conjunct2, THEN conjunct2, THEN spec, of "Callback 7 None"] c d f have 2:
    "completions (trace (snd (createAsyncMiddleware [AwaitNext, Throw (JError ''x'')] ?E ?rq ?rs)))
     = [EvCallback (Callback 7 None) (JError ''x'') ?rs]" by simp
  from a 1 c 2 show ?thesis by blast
qed

text \<open>
  C3. With an engine that invokes every return handler it is passed, a handler that
  invokes the continuation (awaiting it or not) and returns has the captured callback
  invoked with \<open>null\<close>, as the first completion event of the call, and the engine
  supplied that very callback earlier in the call.
\<close>

theorem continue_then_resolve:
  assumes "engine_supplies eng"
    and "run_handler eng h (init rq rs) = Returned s"
    and "list_ex continues h"
  shows "\<exists>pre c post.
           trace (snd (createAsyncMiddleware h eng rq rs)) = pre @ EvCallback c JNull (st_res s) # post \<and>
           EvSupplied c \<in> set pre \<and> completions pre = []"
proof -
  let ?r = "run_handler eng h (init rq rs)"
  have f: "nextWasCalled (tick s)" using returned_flag [OF assms(2,3)] by (simp add: flag_tick)
  have "inv_supply (state_of ?r)" using assms(1) init_invs(2) by (rule inv_supply_run)
  then have sp: "inv_supply (tick s)" using assms(2) by (simp add: inv_supply_tick)
  have "inv_captured (state_of ?r)" using init_invs(1) by (rule inv_captured_run)
  then have cp: "inv_captured (tick s)" using assms(2) by (simp add: inv_captured_tick)
  have "completions (trace (state_of ?r)) = []" by (rule no_completion_run) (rule init_invs)
  then have nc: "completions (trace (tick s)) = []" using assms(2) by (simp add: no_completion_tick)
  from after_handler_waits [OF f sp cp, of eng] obtain s1 c post where
    a: "await_nextPromise (tick s) = Resumed s1"
    and b: "EvSupplied c \<in> set (trace s1)"
    and t: "trace (snd (after_handler eng (tick s))) = trace s1 @ EvCallback c JNull (st_res s1) # post"
    by blast
  have "st_res s1 = st_res s" using await_res [of "tick s"] a by (simp add: res_tick)
  moreover have "completions (trace s1) = []" using await_completions [of "tick s"] a nc by simp
  ultimately show ?thesis using assms(2) b t by (auto simp: createAsyncMiddleware_def)
qed

theorem continue_then_resolve_witness:
  "engine_supplies \<lparr> next_script = [], next_otherwise = Defer 2 (Callback 7 None), end_throws = None \<rparr> \<and>
   run_handler \<lparr> next_script = [], next_otherwise = Defer 2 (Callback 7 None), end_throws = None \<rparr>
       [CallNext]
       (init \<lparr> req_id = JNum 1, req_method = ''m'', req_params = JNull \<rparr>
             \<lparr> res_id = JNum 1, res_result = None, res_error = None \<rparr>)
     = Returned \<lparr> st_req = \<lparr> req_id = JNum 1, req_method = ''m'', req_params = JNull \<rparr>,
                  st_res = \<lparr> res_id = JNum 1, res_result = None, res_error = None \<rparr>,
                  nextPromiseResolved = False, returnHandlerCallback = None, nextWasCalled = True,
                  queued = [(2, Callback 7 None)], nextCalls = 1, trace = [EvNext] \<rparr> \<and>
   list_ex continues [CallNext] \<and>
   (\<exists>pre c post.
      trace (snd (createAsyncMiddleware [CallNext]
          \<lparr> next_script = [], next_otherwise = Defer 2 (Callback 7 None), end_throws = None \<rparr>
          \<lparr> req_id = JNum 1, req_method = ''m'', req_params = JNull \<rparr>
          \<lparr> res_id = JNum 1, res_result = None, res_error = None \<rparr>))
        = pre @ EvCallback c JNull \<lparr> res_id = JNum 1, res_result = None, res_error = None \<rparr> # post \<and>
      EvSupplied c \<in> set pre \<and> completions pre = [])"
proof -
  let ?E = "\<lparr> next_script = [], next_otherwise = Defer 2 (Callback 7 None), end_throws = None \<rparr>"
  let ?rq = "\<lparr> req_id = JNum 1, req_method = ''m'', req_params = JNull \<rparr>"
  let ?rs = "\<lparr> res_id = JNum 1, res_result = None, res_error = None \<rparr>"
  let ?s = "\<lparr> st_req = ?rq, st_res = ?rs,
              nextPromiseResolved = False, returnHandlerCallback = None, nextWasCalled = True,
              queued = [(2, Callback 7 None)], nextCalls = 1, trace = [EvNext] \<rparr>"
  have a: "engine_supplies ?E" by (simp add: engine_supplies_def)
  have b: "run_handler ?E [CallNext] (init ?rq ?rs) = Returned ?s"
    by (simp add: init_def asyncNext_call_def nth_behaviour_def)
  have c: "list_ex continues [CallNext]" by simp
  from continue_then_resolve [OF a b c] a b c show ?thesis by simp
qed

text \<open>
  C4. The call \<open>end(null)\<close> of line 83 is inside the try block: when \<open>end\<close> throws,
  line 89 calls \<open>end\<close> a second time, with what it threw. A handler that only writes
  the result has \<open>end\<close> invoked twice with \<open>null\<close> when \<open>end\<close> throws \<open>null\<close>, and
  once with \<open>null\<close> and once with the error when it throws an error.
\<close>

theorem no_continue_finalize_counterexample:
  "run_handler \<lparr> next_script = [], next_otherwise = Sync (Callback 7 None), end_throws = Some JNull \<rparr>
       [SetResult (JNum 1)]
       (init \<lparr> req_id = JNum 1, req_method = ''m'', req_params = JNull \<rparr>
             \<lparr> res_id = JNum 1, res_result = None, res_error = None \<rparr>)
     = Returned (state_of (run_handler
         \<lparr> next_script = [], next_otherwise = Sync (Callback 7 None), end_throws = Some JNull \<rparr>
         [SetResult (JNum 1)]
         (init \<lparr> req_id = JNum 1, req_method = ''m'', req_params = JNull \<rparr>
               \<lparr> res_id = JNum 1, res_result = None, res_error = None \<rparr>))) \<and>
   trace (snd (createAsyncMiddleware [SetResult (JNum 1)]
       \<lparr> next_script = [], next_otherwise = Sync (Callback 7 None), end_throws = Some JNull \<rparr>
       \<lparr> req_id = JNum 1, req_method = ''m'', req_params = JNull \<rparr>
       \<lparr> res_id = JNum 1, res_result = None, res_error = None \<rparr>))
     = [EvEnd JNull \<lparr> res_id = JNum 1, res_result = Some (JNum 1), res_error = None \<rparr>,
        EvEnd JNull \<lparr> res_id = JNum 1, res_result = Some (JNum 1), res_error = None \<rparr>] \<and>
   trace (snd (createAsyncMiddleware [SetResult (JNum 1)]
       \<lparr> next_script = [], next_otherwise = Sync (Callback 7 None), end_throws = Some (JError ''boom'') \<rparr>
       \<lparr> req_id = JNum 1, req_method = ''m'', req_params = JNull \<rparr>
       \<lparr> res_id = JNum 1, res_result = None, res_error = None \<rparr>))
     = [EvEnd JNull \<lparr> res_id = JNum 1, res_result = Some (JNum 1), res_error = None \<rparr>,
        EvEnd (JError ''boom'') \<lparr> res_id = JNum 1, res_result = Some (JNum 1), res_error = None \<rparr>]"
  by code_simp

text \<open>
  C4, as the code has it. When the handler returns and never invoked the continuation,
  the call's first event is \<open>end(null)\<close>, and the response the engine sees at that call
  carries what the handler wrote (\<open>written\<close>). When \<open>end\<close> does not throw it is the only
  event, and the call is resolved; when it throws, the catch block calls \<open>end\<close> once
  more, with what it threw.
\<close>

theorem no_continue_finalize:
  assumes "run_handler eng h (init rq rs) = Returned s" and "\<not> list_ex continues h"
  shows "trace (snd (createAsyncMiddleware h eng rq rs)) =
           EvEnd JNull (written h rs) #
             (case end_throws eng of None \<Rightarrow> [] | Some x \<Rightarrow> [EvEnd x (written h rs)]) \<and>
         (end_throws eng = None \<longrightarrow>
            createAsyncMiddleware h eng rq rs =
              (Resolved, s\<lparr> trace := [EvEnd JNull (written h rs)] \<rparr>))"
proof -
  have "\<not> nextWasCalled (state_of (run_handler eng h (init rq rs)))"
    using assms(2) by (rule unrequested_flag) (simp add: init_def)
  with assms(1) have n: "\<not> nextWasCalled s" by simp
  have "inv_idle (state_of (run_handler eng h (init rq rs)))"
    by (rule inv_idle_run) (simp add: inv_idle_def init_def)
  with assms(1) have idle: "inv_idle s" by simp
  then have t: "tick s = s" using n by (rule idle_tick)
  from idle n have e: "trace s = []" "returnHandlerCallback s = None" by (simp_all add: inv_idle_def)
  have r: "st_res s = written h rs" using returned_res [OF assms(1)] by (simp add: init_def)
  show ?thesis
    using assms(1) n t e r
    by (cases "end_throws eng")
       (simp_all add: createAsyncMiddleware_def after_handler_def call_end_def catch_block_def)
qed

theorem no_continue_finalize_witness:
  "run_handler \<lparr> next_script = [], next_otherwise = Sync (Callback 7 None), end_throws = None \<rparr>
       [SetResult (JNum 1)]
       (init \<lparr> req_id = JNum 1, req_method = ''m'', req_params = JNull \<rparr>
             \<lparr> res_id = JNum 1, res_result = None, res_error = None \<rparr>)
     = Returned ((init \<lparr> req_id = JNum 1, req_method = ''m'', req_params = JNull \<rparr>
             \<lparr> res_id = JNum 1, res_result = None, res_error = None \<rparr>)
          \<lparr> st_res := \<lparr> res_id = JNum 1, res_result = Some (JNum 1), res_error = None \<rparr> \<rparr>) \<and>
   \<not> list_ex continues [SetResult (JNum 1)] \<and>
   end_throws \<lparr> next_script = [], next_otherwise = Sync (Callback 7 None), end_throws = None \<rparr> = None \<and>
   createAsyncMiddleware [SetResult (JNum 1)]
       \<lparr> next_script = [], next_otherwise = Sync (Callback 7 None), end_throws = None \<rparr>
       \<lparr> req_id = JNum 1, req_method = ''m'', req_params = JNull \<rparr>
       \<lparr> res_id = JNum 1, res_result = None, res_error = None \<rparr>
     = (Resolved,
        \<lparr> st_req = \<lparr> req_id = JNum 1, req_method = ''m'', req_params = JNull \<rparr>,
          st_res = \<lparr> res_id = JNum 1, res_result = Some (JNum 1), res_error = None \<rparr>,
          nextPromiseResolved = False, returnHandlerCallback = None, nextWasCalled = False,
          queued = [], nextCalls = 0,
          trace = [EvEnd JNull \<lparr> res_id = JNum 1, res_result = Some (JNum 1), res_error = None \<rparr>] \<rparr>)"
proof -
  let ?E = "\<lparr> next_script = [], next_otherwise = Sync (Callback 7 None), end_throws = None \<rparr>"
  let ?rq = "\<lparr> req_id = JNum 1, req_method = ''m'', req_params = JNull \<rparr>"
  let ?rs = "\<lparr> res_id = JNum 1, res_result = None, res_error = None \<rparr>"
  have a: "run_handler ?E [SetResult (JNum 1)] (init ?rq ?rs) =
      Returned ((init ?rq ?rs)\<lparr> st_res := \<lparr> res_id = JNum 1, res_result = Some (JNum 1), res_error = None \<rparr> \<rparr>)"
    by (simp add: init_def)
  have b: "\<not> list_ex continues [SetResult (JNum 1)]" by simp
  have c: "end_throws ?E = None" by simp
  from no_continue_finalize [OF a b, THEN conjunct2] c a b show ?thesis by (simp add: init_def)
qed






text \<open>
  C7. The produced middleware and its continuation function neither read nor write the
  request: the outcome, the events and the response of a call are the same for any two
  requests, and the request at the end of the call is the one the call was given with
  the writes of the handler's own actions (a prefix of them, when the handler stops
  early) applied; it is the given request when the handler writes none.
\<close>

theorem request_untouched:
  "fst (createAsyncMiddleware h eng rq rs) = fst (createAsyncMiddleware h eng rq' rs) \<and>
   trace (snd (createAsyncMiddleware h eng rq rs)) = trace (snd (createAsyncMiddleware h eng rq' rs)) \<and>
   st_res (snd (createAsyncMiddleware h eng rq rs)) = st_res (snd (createAsyncMiddleware h eng rq' rs)) \<and>
   (\<exists>k\<le>length h. st_req (snd (createAsyncMiddleware h eng rq rs)) = requested (take k h) rq) \<and>
   (\<not> list_ex sets_request h \<longrightarrow> st_req (snd (createAsyncMiddleware h eng rq rs)) = rq)"
proof -
  let ?a = "createAsyncMiddleware h eng rq rs"
  let ?b = "createAsyncMiddleware h eng rq' rs"
  have m: "map_prod id forget ?a = map_prod id forget ?b" by (rule forget_middleware)
  then have o: "fst ?a = fst ?b" by (metis fst_map_prod id_apply)
  from m have f: "forget (snd ?a) = forget (snd ?b)" by (metis snd_map_prod)
  then have "trace (forget (snd ?a)) = trace (forget (snd ?b))"
    "st_res (forget (snd ?a)) = st_res (forget (snd ?b))" by simp_all
  then have t: "trace (snd ?a) = trace (snd ?b)" and w: "st_res (snd ?a) = st_res (snd ?b)"
    by (simp_all add: forget_def)
  have k: "\<exists>k\<le>length h. st_req (snd ?a) = requested (take k h) rq" by (rule req_middleware)
  then have n: "\<not> list_ex sets_request h \<longrightarrow> st_req (snd ?a) = rq"
    by (auto simp: requested_take_none)
  from o t w k n show ?thesis by blast
qed

theorem request_untouched_witness:
  "\<not> list_ex sets_request [SetResult (JNum 1), AwaitNext] \<and>
   st_req (snd (createAsyncMiddleware [SetResult (JNum 1), AwaitNext]
       \<lparr> next_script = [], next_otherwise = Defer 1 (Callback 7 None), end_throws = None \<rparr>
       \<lparr> req_id = JNum 1, req_method = ''m'', req_params = JStr ''p'' \<rparr>
       \<lparr> res_id = JNum 1, res_result = None, res_error = None \<rparr>))
     = \<lparr> req_id = JNum 1, req_method = ''m'', req_params = JStr ''p'' \<rparr>"
proof -
  have a: "\<not> list_ex sets_request [SetResult (JNum 1), AwaitNext]" by simp
  from a request_untouched [of "[SetResult (JNum 1), AwaitNext]"
      "\<lparr> next_script = [], next_otherwise = Defer 1 (Callback 7 None), end_throws = None \<rparr>"
      "\<lparr> req_id = JNum 1, req_method = ''m'', req_params = JStr ''p'' \<rparr>"
      "\<lparr> res_id = JNum 1, res_result = None, res_error = None \<rparr>"
      "\<lparr> req_id = JNum 1, req_method = ''m'', req_params = JStr ''p'' \<rparr>"]
  show ?thesis by blast
qed



text \<open>
  C9. The test of line 86 reads the captured callback when the catch block runs. The
  falsy value \<open>undefined\<close>, thrown while no callback is captured by a handler that
  called the continuation without awaiting it, goes to the callback and not to \<open>end\<close>
  when the engine invokes the return handler at the scheduling point in between.
\<close>

theorem falsy_error_counterexample:
  "\<not> truthy JUndefined \<and>
   run_handler \<lparr> next_script = [], next_otherwise = Defer 0 (Callback 7 None), end_throws = None \<rparr>
       [CallNext, Throw JUndefined]
       (init \<lparr> req_id = JNum 1, req_method = ''m'', req_params = JNull \<rparr>
             \<lparr> res_id = JNum 1, res_result = None, res_error = None \<rparr>)
     = Threw JUndefined
         (state_of (run_handler \<lparr> next_script = [], next_otherwise = Defer 0 (Callback 7 None), end_throws = None \<rparr>
            [CallNext, Throw JUndefined]
            (init \<lparr> req_id = JNum 1, req_method = ''m'', req_params = JNull \<rparr>
                  \<lparr> res_id = JNum 1, res_result = None, res_error = None \<rparr>))) \<and>
   returnHandlerCallback
     (state_of (run_handler \<lparr> next_script = [], next_otherwise = Defer 0 (Callback 7 None), end_throws = None \<rparr>
        [CallNext, Throw JUndefined]
        (init \<lparr> req_id = JNum 1, req_method = ''m'', req_params = JNull \<rparr>
              \<lparr> res_id = JNum 1, res_result = None, res_error = None \<rparr>))) = None \<and>
   completions (trace (snd (createAsyncMiddleware [CallNext, Throw JUndefined]
       \<lparr> next_script = [], next_otherwise = Defer 0 (Callback 7 None), end_throws = None \<rparr>
       \<lparr> req_id = JNum 1, req_method = ''m'', req_params = JNull \<rparr>
       \<lparr> res_id = JNum 1, res_result = None, res_error = None \<rparr>)))
     = [EvCallback (Callback 7 None) JUndefined
          \<lparr> res_id = JNum 1, res_result = None, res_error = None \<rparr>]"
  by code_simp

text \<open>
  C9, as the code has it. The test never looks at the thrown value: a falsy value
  thrown by the handler is delivered as it is, and it is the only completion event: to
  the callback captured when the catch block runs, or to \<open>end\<close> when none is captured
  then. A callback captured at the throw is still captured then.
\<close>

theorem falsy_error_delivered:
  assumes "run_handler eng h (init rq rs) = Threw e s" and "\<not> truthy e"
  shows "(\<forall>c. returnHandlerCallback (tick s) = Some c \<longrightarrow>
            completions (trace (snd (createAsyncMiddleware h eng rq rs))) =
              [EvCallback c e (st_res s)]) \<and>
         (returnHandlerCallback (tick s) = None \<longrightarrow>
            completions (trace (snd (createAsyncMiddleware h eng rq rs))) =
              [EvEnd e (st_res s)]) \<and>
         (\<forall>c. returnHandlerCallback s = Some c \<longrightarrow>
            (\<exists>c'. returnHandlerCallback (tick s) = Some c'))"
  using thrown_completions [OF assms(1)] by (auto simp: captured_tick)

theorem falsy_error_delivered_witness:
  "run_handler \<lparr> next_script = [], next_otherwise = Sync (Callback 7 None), end_throws = None \<rparr>
       [AwaitNext, Throw (JNum 0)]
       (init \<lparr> req_id = JNum 1, req_method = ''m'', req_params = JNull \<rparr>
             \<lparr> res_id = JNum 1, res_result = None, res_error = None \<rparr>)
     = Threw (JNum 0)
        \<lparr> st_req = \<lparr> req_id = JNum 1, req_method = ''m'', req_params = JNull \<rparr>,
          st_res = \<lparr> res_id = JNum 1, res_result = None, res_error = None \<rparr>,
          nextPromiseResolved = True, returnHandlerCallback = Some (Callback 7 None),
          nextWasCalled = True, queued = [], nextCalls = 1,
          trace = [EvNext, EvSupplied (Callback 7 None)] \<rparr> \<and>
   \<not> truthy (JNum 0) \<and>
   completions (trace (snd (createAsyncMiddleware [AwaitNext, Throw (JNum 0)]
       \<lparr> next_script = [], next_otherwise = Sync (Callback 7 None), end_throws = None \<rparr>
       \<lparr> req_id = JNum 1, req_method = ''m'', req_params = JNull \<rparr>
       \<lparr> res_id = JNum 1, res_result = None, res_error = None \<rparr>)))
     = [EvCallback (Callback 7 None) (JNum 0)
          \<lparr> res_id = JNum 1, res_result = None, res_error = None \<rparr>] \<and>
   run_handler \<lparr> next_script = [], next_otherwise = Sync (Callback 7 None), end_throws = None \<rparr>
       [Throw (JBool False)]
       (init \<lparr> req_id = JNum 1, req_method = ''m'', req_params = JNull \<rparr>
             \<lparr> res_id = JNum 1, res_result = None, res_error = None \<rparr>)
     = Threw (JBool False)
        (init \<lparr> req_id = JNum 1, req_method = ''m'', req_params = JNull \<rparr>
              \<lparr> res_id = JNum 1, res_result = None, res_error = None \<rparr>) \<and>
   \<not> truthy (JBool False) \<and>
   completions (trace (snd (createAsyncMiddleware [Throw (JBool False)]
       \<lparr> next_script = [], next_otherwise = Sync (Callback 7 None), end_throws = None \<rparr>
       \<lparr> req_id = JNum 1, req_method = ''m'', req_params = JNull \<rparr>
       \<lparr> res_id = JNum 1, res_result = None, res_error = None \<rparr>)))
     = [EvEnd (JBool False) \<lparr> res_id = JNum 1, res_result = None, res_error = None \<rparr>]"
proof -
  let ?E = "\<lparr> next_script = [], next_otherwise = Sync (Callback 7 None), end_throws = None \<rparr>"
  let ?rq = "\<lparr> req_id = JNum 1, req_method = ''m'', req_params = JNull \<rparr>"
  let ?rs = "\<lparr> res_id = JNum 1, res_result = None, res_error = None \<rparr>"
  let ?s = "\<lparr> st_req = ?rq, st_res = ?rs,
          nextPromiseResolved = True, returnHandlerCallback = Some (Callback 7 None),
          nextWasCalled = True, queued = [], nextCalls = 1,
          trace = [EvNext, EvSupplied (Callback 7 None)] \<rparr>"
  have a: "run_handler ?E [AwaitNext, Throw (JNum 0)] (init ?rq ?rs) = Threw (JNum 0) ?s"
    by code_simp
  have b: "\<not> truthy (JNum 0)" by simp
  have c: "returnHandlerCallback (tick ?s) = Some (Callback 7 None)" "st_res ?s = ?rs"
    by (simp_all add: tick_eq due_def)
  have d: "run_handler ?E [Throw (JBool False)] (init ?rq ?rs) = Threw (JBool False) (init ?rq ?rs)"
    by simp
  have e: "\<not> truthy (JBool False)" by simp
  have f: "returnHandlerCallback (tick (init ?rq ?rs)) = None" "st_res (init ?rq ?rs) = ?rs"
    by (simp_all add: tick_eq due_def init_def)
  from falsy_error_delivered [OF a b, THEN conjunct1, THEN spec, of "Callback 7 None"] c
  have 1: "completions (trace (snd (createAsyncMiddleware [AwaitNext, Throw (JNum 0)] ?E ?rq ?rs)))
     = [EvCallback (Callback 7 None) (JNum 0) ?rs]" by simp
  from falsy_error_delivered [OF d e, THEN conjunct2, THEN conjunct1] f
  have 2: "completions (trace (snd (createAsyncMiddleware [Throw (JBool False)] ?E ?rq ?rs)))
     = [EvEnd (JBool False) ?rs]" by simp
  from a b 1 d e 2 show ?thesis by blast
qed

text \<open>
  C10. The engine's \<open>next\<close> is called only by the continuation function: a call whose
  handler has no continuation action has no \<open>next\<close> event, and a call whose handler
  reaches its one continuation action (nothing before it throws) has exactly one, whatever
  follows and whatever \<open>next\<close> does.
\<close>

theorem next_only_on_request:
  "(\<not> list_ex continues h \<longrightarrow>
      EvNext \<notin> set (trace (snd (createAsyncMiddleware h eng rq rs)))) \<and>
   (\<forall>pre a post. h = pre @ a # post \<and> continues a \<and> \<not> list_ex throws pre \<and>
      \<not> list_ex continues pre \<and> \<not> list_ex continues post \<longrightarrow>
      count_list (trace (snd (createAsyncMiddleware h eng rq rs))) EvNext = 1)"
proof -
  have z: "next_count (init rq rs) = 0" by (simp add: next_count_def init_def)
  have a: "\<not> list_ex continues h \<longrightarrow>
      EvNext \<notin> set (trace (snd (createAsyncMiddleware h eng rq rs)))"
  proof
    assume "\<not> list_ex continues h"
    from count_unrequested [OF this, of eng "init rq rs"] z
    have "next_count (snd (createAsyncMiddleware h eng rq rs)) = 0"
      by (simp add: count_middleware)
    then show "EvNext \<notin> set (trace (snd (createAsyncMiddleware h eng rq rs)))"
      by (simp add: next_count_def count_list_0_iff)
  qed
  have b: "\<forall>pre a post. h = pre @ a # post \<and> continues a \<and> \<not> list_ex throws pre \<and>
      \<not> list_ex continues pre \<and> \<not> list_ex continues post \<longrightarrow>
      count_list (trace (snd (createAsyncMiddleware h eng rq rs))) EvNext = 1"
  proof (intro allI impI)
    fix pre a post
    assume c: "h = pre @ a # post \<and> continues a \<and> \<not> list_ex throws pre \<and>
      \<not> list_ex continues pre \<and> \<not> list_ex continues post"
    then obtain s' where r: "run_handler eng h (init rq rs) = run_handler eng (a # post) s'"
      and n: "next_count s' = 0"
      using plain_prefix [of pre eng "a # post" "init rq rs"] z by auto
    from c count_once [of a post eng s'] n
    have "next_count (state_of (run_handler eng (a # post) s')) = 1" by simp
    with r show "count_list (trace (snd (createAsyncMiddleware h eng rq rs))) EvNext = 1"
      using count_middleware [of h eng rq rs] by (simp add: next_count_def)
  qed
  from a b show ?thesis by blast
qed

theorem next_only_on_request_witness:
  "\<not> list_ex continues [SetResult (JNum 1), Throw (JError ''x'')] \<and>
   EvNext \<notin> set (trace (snd (createAsyncMiddleware [SetResult (JNum 1), Throw (JError ''x'')]
       \<lparr> next_script = [], next_otherwise = Defer 1 (Callback 7 None), end_throws = None \<rparr>
       \<lparr> req_id = JNum 1, req_method = ''m'', req_params = JNull \<rparr>
       \<lparr> res_id = JNum 1, res_result = None, res_error = None \<rparr>))) \<and>
   [Yield, AwaitNext, SetResult (JNum 2)] = [Yield] @ AwaitNext # [SetResult (JNum 2)] \<and>
   continues AwaitNext \<and> \<not> list_ex throws [Yield] \<and> \<not> list_ex continues [Yield] \<and>
   \<not> list_ex continues [SetResult (JNum 2)] \<and>
   count_list (trace (snd (createAsyncMiddleware [Yield, AwaitNext, SetResult (JNum 2)]
       \<lparr> next_script = [], next_otherwise = Defer 1 (Callback 7 None), end_throws = None \<rparr>
       \<lparr> req_id = JNum 1, req_method = ''m'', req_params = JNull \<rparr>
       \<lparr> res_id = JNum 1, res_result = None, res_error = None \<rparr>))) EvNext = 1"
proof -
  let ?E = "\<lparr> next_script = [], next_otherwise = Defer 1 (Callback 7 None), end_throws = None \<rparr>"
  let ?rq = "\<lparr> req_id = JNum 1, req_method = ''m'', req_params = JNull \<rparr>"
  let ?rs = "\<lparr> res_id = JNum 1, res_result = None, res_error = None \<rparr>"
  have a: "\<not> list_ex continues [SetResult (JNum 1), Throw (JError ''x'')]" by simp
  have b: "[Yield, AwaitNext, SetResult (JNum 2)] = [Yield] @ AwaitNext # [SetResult (JNum 2)] \<and>
     continues AwaitNext \<and> \<not> list_ex throws [Yield] \<and> \<not> list_ex continues [Yield] \<and>
     \<not> list_ex continues [SetResult (JNum 2)]" by simp
  from next_only_on_request [of "[SetResult (JNum 1), Throw (JError ''x'')]" ?E ?rq ?rs] a
  have 1: "EvNext \<notin> set (trace (snd (createAsyncMiddleware
      [SetResult (JNum 1), Throw (JError ''x'')] ?E ?rq ?rs)))" by blast
  from next_only_on_request [of "[Yield, AwaitNext, SetResult (JNum 2)]" ?E ?rq ?rs,
      THEN conjunct2, THEN spec, THEN spec, THEN spec, THEN mp, OF b]
  have 2: "count_list (trace (snd (createAsyncMiddleware
      [Yield, AwaitNext, SetResult (JNum 2)] ?E ?rq ?rs))) EvNext = 1" .
  from a 1 b 2 show ?thesis by blast
qed

end
